theory Spec2Isabelle
  imports Main
begin

section \<open>JavaScript values as far as server.js inspects them\<close>

text \<open>
  The daemon library hands the scan callback a plain object whose fields may hold any
  JavaScript value. The code only tests truthiness, strict equality with a few literals,
  \<^verbatim>\<open>Array.isArray\<close>, \<^verbatim>\<open>typeof x === 'string'\<close> and \<^verbatim>\<open>.length\<close>, so a value is one of:
  undefined, null, a boolean, a number (an integer or NaN: the code compares with 1 and
  tests for zero only), a BigInt, a string, an array, or any other object. Of such an
  object the code can learn one thing only, whether \<^verbatim>\<open>.length > 0\<close> holds for it (as it
  does for an array-like object, a function with parameters or a \<^verbatim>\<open>String\<close> object), so
  \<open>JObj b\<close> is an object for which that test gives \<open>b\<close>; a symbol behaves like
  \<open>JObj False\<close>. Strings are lists of 8-bit characters, i.e. code units below 256.
\<close>

datatype jsval =
    JUndefined
  | JNull
  | JBool bool
  | JNum int
  | JNaN
  | JBigInt int
  | JStr string
  | JArr "jsval list"
  | JObj bool

fun truthy :: "jsval \<Rightarrow> bool" where
  "truthy JUndefined = False"
| "truthy JNull = False"
| "truthy (JBool b) = b"
| "truthy (JNum n) = (n \<noteq> 0)"
| "truthy JNaN = False"
| "truthy (JBigInt n) = (n \<noteq> 0)"
| "truthy (JStr s) = (s \<noteq> [])"
| "truthy (JArr xs) = True"
| "truthy (JObj b) = True"

text \<open>\<^verbatim>\<open>a && b\<close> and \<^verbatim>\<open>a || b\<close> return one of their operands, not a boolean.\<close>

definition js_and :: "jsval \<Rightarrow> jsval \<Rightarrow> jsval" where
  "js_and a b = (if truthy a then b else a)"

definition js_or :: "jsval \<Rightarrow> jsval \<Rightarrow> jsval" where
  "js_or a b = (if truthy a then a else b)"

fun isArray :: "jsval \<Rightarrow> bool" where
  "isArray (JArr xs) = True"
| "isArray v = False"

fun isString :: "jsval \<Rightarrow> bool" where
  "isString (JStr s) = True"
| "isString v = False"

text \<open>\<^verbatim>\<open>v.length > 0\<close> for a truthy \<open>v\<close>: a string or an array has its length, an object
  answers for itself, and a boolean, a number or a BigInt gives \<^verbatim>\<open>undefined > 0\<close>, which is
  false.\<close>

fun length_gt_0 :: "jsval \<Rightarrow> bool" where
  "length_gt_0 (JStr s) = (length s > 0)"
| "length_gt_0 (JArr xs) = (length xs > 0)"
| "length_gt_0 (JObj b) = b"
| "length_gt_0 v = False"

fun elements :: "jsval \<Rightarrow> jsval list" where
  "elements (JArr xs) = xs"
| "elements v = []"

section \<open>String primitives: includes, trim and the FOUND pattern\<close>

definition starts_with :: "string \<Rightarrow> string \<Rightarrow> bool" where
  "starts_with s t = (take (length t) s = t)"

text \<open>\<^verbatim>\<open>s.includes(t)\<close>: \<open>t\<close> occurs in \<open>s\<close> at some position (case-sensitive).\<close>

fun includes_str :: "string \<Rightarrow> string \<Rightarrow> bool" where
  "includes_str [] t = (t = [])"
| "includes_str (c # cs) t = (starts_with (c # cs) t \<or> includes_str cs t)"

text \<open>White space of \<^verbatim>\<open>\s\<close> and of \<^verbatim>\<open>trim()\<close> among the code units below 256:
  TAB, LF, VT, FF, CR, space and the no-break space. The line terminators, which
  \<^verbatim>\<open>.\<close> does not match, are LF and CR.\<close>

definition js_space :: "char \<Rightarrow> bool" where
  "js_space c = ((of_char c :: nat) \<in> {9, 10, 11, 12, 13, 32, 160})"

definition line_terminator :: "char \<Rightarrow> bool" where
  "line_terminator c = ((of_char c :: nat) \<in> {10, 13})"

definition trim :: "string \<Rightarrow> string" where
  "trim s = rev (dropWhile js_space (rev (dropWhile js_space s)))"

text \<open>Case folding of the \<^verbatim>\<open>i\<close> flag: the only characters that fold onto a letter of
  \<^verbatim>\<open>FOUND\<close> are that letter and its lower-case form.\<close>

definition js_upper :: "char \<Rightarrow> char" where
  "js_upper c = (let n = (of_char c :: nat) in if 97 \<le> n \<and> n \<le> 122 then char_of (n - 32) else c)"

definition starts_with_ci :: "string \<Rightarrow> string \<Rightarrow> bool" where
  "starts_with_ci s t = (map js_upper (take (length t) s) = map js_upper t)"

text \<open>\<^verbatim>\<open>(.+)\<close> at the end of the pattern: greedy, so it takes every character up to the
  next line terminator, and fails when there is none to take.\<close>

definition dot_plus :: "string \<Rightarrow> string option" where
  "dot_plus s = (let m = takeWhile (\<lambda>c. \<not> line_terminator c) s in if m = [] then None else Some m)"

text \<open>\<^verbatim>\<open>\s*(.+)\<close> with backtracking: \<open>ws_star n s\<close> lets \<^verbatim>\<open>\s*\<close> take the first \<open>n\<close>
  characters of \<open>s\<close> (all white space), tries the group on the rest, and gives one
  character back when the group fails.\<close>

fun ws_star :: "nat \<Rightarrow> string \<Rightarrow> string option" where
  "ws_star 0 s = dot_plus s"
| "ws_star (Suc n) s =
     (case dot_plus (drop (Suc n) s) of Some m \<Rightarrow> Some m | None \<Rightarrow> ws_star n s)"

definition after_found :: "string \<Rightarrow> string option" where
  "after_found s = ws_star (length (takeWhile js_space s)) s"

text \<open>\<^verbatim>\<open>file.match(/FOUND:\s*(.+)/i)\<close>: the leftmost position where the pattern matches;
  the result is capture group 1, or \<open>None\<close> for \<^verbatim>\<open>null\<close>.\<close>

fun found_match :: "string \<Rightarrow> string option" where
  "found_match [] = None"
| "found_match (c # cs) =
     (if starts_with_ci (c # cs) ''FOUND:''
      then (case after_found (drop 6 (c # cs)) of
              Some m \<Rightarrow> Some m
            | None \<Rightarrow> found_match cs)
      else found_match cs)"

section \<open>The daemon's response and the scan result\<close>

text \<open>The fields of the callback's \<^verbatim>\<open>object\<close> that scanWithStream reads; an absent
  field is \<open>JUndefined\<close>.\<close>

record response =
  obj_resultString :: jsval
  obj_viruses :: jsval
  obj_virus :: jsval
  obj_isInfected :: jsval
  obj_infected :: jsval
  obj_file :: jsval

text \<open>The three durations are differences of \<^verbatim>\<open>Date.now()\<close> readings, taken as given.\<close>

record timings =
  t_streamProcessingTime :: int
  t_scanDuration :: int
  t_totalDuration :: int

record scan_result =
  isInfected :: jsval
  viruses :: "jsval list"
  scan_method :: string  \<comment> \<open>the field \<^verbatim>\<open>method\<close>\<close>
  streamProcessingTime :: int
  scanDuration :: int
  totalDuration :: int
  rawResult :: "response option"
  needsFallback :: jsval

definition hasViruses :: "response \<Rightarrow> jsval" where
  "hasViruses object =
     js_or (js_and (js_and (obj_viruses object) (JBool (isArray (obj_viruses object))))
                   (JBool (length_gt_0 (obj_viruses object))))
           (js_and (obj_virus object) (JBool (length_gt_0 (obj_virus object))))"

definition isInfectedFlag :: "response \<Rightarrow> bool" where
  "isInfectedFlag object =
     (obj_isInfected object = JBool True \<or>
      obj_isInfected object = JStr ''true'' \<or>
      obj_isInfected object = JNum 1 \<or>
      obj_infected object = JBool True)"

definition file_includes :: "jsval \<Rightarrow> string \<Rightarrow> bool" where
  "file_includes f t = (case f of JStr s \<Rightarrow> includes_str s t | _ \<Rightarrow> False)"

definition hasVirusInName :: "response \<Rightarrow> jsval" where
  "hasVirusInName object =
     js_and (js_and (obj_file object) (JBool (isString (obj_file object))))
            (JBool (file_includes (obj_file object) ''FOUND'' \<or>
                    file_includes (obj_file object) ''Infected''))"

definition isInfected_of :: "response \<Rightarrow> jsval" where
  "isInfected_of object =
     js_or (js_or (JBool (isInfectedFlag object)) (hasViruses object)) (hasVirusInName object)"

definition match_viruses :: "jsval \<Rightarrow> jsval list" where
  "match_viruses f =
     (case f of
        JStr s \<Rightarrow> (case found_match s of Some m \<Rightarrow> [JStr (trim m)] | None \<Rightarrow> [])
      | _ \<Rightarrow> [])"

definition extract_viruses :: "response \<Rightarrow> jsval list" where
  "extract_viruses object =
     (if truthy (js_and (obj_viruses object) (JBool (isArray (obj_viruses object))))
      then elements (obj_viruses object)
      else if truthy (obj_virus object)
      then (if isArray (obj_virus object) then elements (obj_virus object) else [obj_virus object])
      else if truthy (js_and (hasVirusInName object) (obj_file object))
      then match_viruses (obj_file object)
      else [])"

definition final_viruses :: "response \<Rightarrow> jsval list" where
  "final_viruses object =
     (let viruses = extract_viruses object
      in if truthy (isInfected_of object) \<and> length viruses = 0
         then viruses @ [JStr ''Threat detected'']
         else viruses)"

datatype js_error = Error (message: string) (props: "(string \<times> jsval) list")

definition err_code :: "js_error \<Rightarrow> jsval" where
  "err_code e = (case map_of (props e) ''code'' of Some v \<Rightarrow> v | None \<Rightarrow> JUndefined)"

text \<open>What a promise comes to: resolved, rejected, or left pending for ever because the
  callback that should settle it threw.\<close>

datatype 'a settled = Resolved 'a | Rejected js_error | Unsettled

text \<open>The local \<^verbatim>\<open>viruses\<close> is the answer's own array when it comes from
  \<^verbatim>\<open>object.viruses\<close> or from an array \<^verbatim>\<open>object.virus\<close> (server.js 255, 257), so the
  \<^verbatim>\<open>push\<close> of line 266 then changes the answer itself, which line 278 returns as
  \<^verbatim>\<open>rawResult\<close>. In the other cases the array is a new one. (The two fields of an answer
  are taken to hold separate arrays.)\<close>

definition answer_after_push :: "response \<Rightarrow> response" where
  "answer_after_push object =
     (if truthy (isInfected_of object) \<and> length (extract_viruses object) = 0
      then (if truthy (js_and (obj_viruses object) (JBool (isArray (obj_viruses object))))
            then object\<lparr>obj_viruses :=
                   JArr (elements (obj_viruses object) @ [JStr ''Threat detected''])\<rparr>
            else if truthy (obj_virus object) \<and> isArray (obj_virus object)
            then object\<lparr>obj_virus :=
                   JArr (elements (obj_virus object) @ [JStr ''Threat detected''])\<rparr>
            else object)
      else object)"

text \<open>The classification (server.js 237-279), reached by every answer that is not turned
  away as \<^verbatim>\<open>UNKNOWN COMMAND\<close> before.\<close>

definition classify :: "timings \<Rightarrow> response \<Rightarrow> scan_result" where
  "classify t object =
     \<lparr> isInfected = isInfected_of object, viruses = final_viruses object,
       scan_method = ''clamdscan (stream)'',
       streamProcessingTime = t_streamProcessingTime t,
       scanDuration = t_scanDuration t,
       totalDuration = t_totalDuration t,
       rawResult = Some (answer_after_push object), needsFallback = JUndefined \<rparr>"

text \<open>The part of the scanStream callback after the error check (server.js 220-279):
  what the promise of scanWithStream settles to for a daemon answer \<open>object\<close>. A
  \<^verbatim>\<open>null\<close> answer passes the first test and then \<^verbatim>\<open>object.viruses\<close> throws a TypeError
  inside the callback.\<close>

definition interpret_response :: "timings \<Rightarrow> response option \<Rightarrow> scan_result settled" where
  "interpret_response t obj =
     (case obj of
        None \<Rightarrow> Unsettled
      | Some object \<Rightarrow>
          if obj_resultString object = JStr ''UNKNOWN COMMAND''
          then Resolved \<lparr> isInfected = JBool False, viruses = [],
                 scan_method = ''clamdscan (stream - failed)'',
                 streamProcessingTime = t_streamProcessingTime t,
                 scanDuration = t_scanDuration t,
                 totalDuration = t_totalDuration t,
                 rawResult = Some object, needsFallback = JBool True \<rparr>
          else Resolved (classify t object))"

section \<open>The connection pool\<close>

text \<open>A connection is an opaque object compared by identity; so is a queue entry, the
  \<^verbatim>\<open>{ resolve, reject }\<close> pair of a suspended \<^verbatim>\<open>acquire()\<close> call. Both are numbered.\<close>

type_synonym conn = nat
type_synonym waiter = nat

record pool_state =
  pool :: "conn list"
  inUse :: "conn set"
  maxConnections :: nat
  queue :: "waiter list"
  maxQueueSize :: nat
  initialized :: bool

definition new_pool :: "nat \<Rightarrow> nat \<Rightarrow> pool_state" where
  "new_pool maxc maxq =
     \<lparr> pool = [], inUse = {}, maxConnections = maxc, queue = [], maxQueueSize = maxq,
       initialized = False \<rparr>"

definition connectionPool :: pool_state where
  "connectionPool = new_pool 5 20"

text \<open>The executor of \<^verbatim>\<open>acquire()\<close> runs synchronously and ends in one of four ways: it
  resolves with an idle connection, it starts \<^verbatim>\<open>_createConnection()\<close> (whose
  continuation runs later, see \<open>acquire_created\<close>), it rejects, or it parks the
  caller in the queue.\<close>

datatype acquired = Got conn | Creating | Failed js_error | Queued

definition queue_full_error :: js_error where
  "queue_full_error =
     Error ''Connection pool queue is full. Too many concurrent scan requests.'' []"

definition acquire :: "waiter \<Rightarrow> pool_state \<Rightarrow> acquired \<times> pool_state" where
  "acquire w s =
     (case List.find (\<lambda>c. c \<notin> inUse s) (pool s) of
        Some conn \<Rightarrow> (Got conn, s\<lparr>inUse := insert conn (inUse s)\<rparr>)
      | None \<Rightarrow>
          if length (pool s) < maxConnections s then (Creating, s)
          else if length (queue s) \<ge> maxQueueSize s then (Failed queue_full_error, s)
          else (Queued, s\<lparr>queue := queue s @ [w]\<rparr>))"

text \<open>The \<^verbatim>\<open>.then\<close> continuation of a creation started by \<^verbatim>\<open>acquire()\<close>: the new
  connection is pushed and marked in use, with no second look at the limit.\<close>

definition acquire_created :: "conn \<Rightarrow> pool_state \<Rightarrow> pool_state" where
  "acquire_created conn s = s\<lparr>pool := pool s @ [conn], inUse := insert conn (inUse s)\<rparr>"

text \<open>\<^verbatim>\<open>release(conn)\<close> returns the state and, when a queued caller was resumed, the pair
  of that caller and the connection it was resolved with.\<close>

definition release :: "conn \<Rightarrow> pool_state \<Rightarrow> (waiter \<times> conn) option \<times> pool_state" where
  "release conn s =
     (let s1 = s\<lparr>inUse := inUse s - {conn}\<rparr>
      in if length (queue s1) > 0
         then (Some (hd (queue s1), conn),
               s1\<lparr>queue := tl (queue s1), inUse := insert conn (inUse s1)\<rparr>)
         else (None, s1))"

text \<open>\<^verbatim>\<open>indexOf\<close> finds the first occurrence and \<^verbatim>\<open>splice(index, 1)\<close> deletes it.\<close>

definition removeConnection :: "conn \<Rightarrow> pool_state \<Rightarrow> pool_state" where
  "removeConnection conn s =
     (let s1 = s\<lparr>inUse := inUse s - {conn}\<rparr>
      in if conn \<in> set (pool s1) then s1\<lparr>pool := remove1 conn (pool s1)\<rparr> else s1)"

definition isReady :: "pool_state \<Rightarrow> bool" where
  "isReady s = (initialized s \<or> length (pool s) > 0)"

section \<open>The scanStream callback\<close>

definition transport_error :: "js_error \<Rightarrow> bool" where
  "transport_error e = (err_code e = JStr ''EPIPE'' \<or> err_code e = JStr ''ECONNRESET'')"

text \<open>The callback passed to \<^verbatim>\<open>conn.scanStream\<close> (server.js 199-280), run on the pool
  state at the time the daemon answers. It yields the queued caller resumed by
  \<^verbatim>\<open>release\<close> (if any), what the scan promise settles to, and the new pool state.\<close>

definition scan_callback ::
  "conn \<Rightarrow> js_error option \<Rightarrow> response option \<Rightarrow> timings \<Rightarrow> pool_state \<Rightarrow>
     (waiter \<times> conn) option \<times> scan_result settled \<times> pool_state" where
  "scan_callback conn err obj t s =
     (let (handed, s1) = release conn s
      in case err of
           Some e \<Rightarrow>
             if transport_error e
             then (handed, Rejected e, removeConnection conn s1)
             else (handed, Rejected e, s1)
         | None \<Rightarrow> (handed, interpret_response t obj, s1))"

section \<open>Interleaved pool operations\<close>

text \<open>Requests run concurrently on one event loop: each pool method runs to completion,
  but the creation started by \<^verbatim>\<open>acquire()\<close> finishes in a later turn, and other calls
  run in between. An event is one such turn. The set of callers whose creation is
  still pending is kept beside the pool state, so that a creation can only finish for
  a caller that started one; a created connection is a fresh object.\<close>

datatype event =
    Acquire waiter
  | Created waiter conn
  | CreateFailed waiter js_error
  | Release conn
  | Remove conn

fun step :: "event \<Rightarrow> pool_state \<times> waiter set \<Rightarrow> (pool_state \<times> waiter set) option" where
  "step (Acquire w) (s, pending) =
     (case acquire w s of
        (Creating, s') \<Rightarrow> Some (s', insert w pending)
      | (r, s') \<Rightarrow> Some (s', pending))"
| "step (Created w c) (s, pending) =
     (if w \<in> pending \<and> c \<notin> set (pool s)
      then Some (acquire_created c (s\<lparr>initialized := True\<rparr>), pending - {w})
      else None)"
| "step (CreateFailed w e) (s, pending) =
     (if w \<in> pending then Some (s, pending - {w}) else None)"
| "step (Release c) (s, pending) =
     (if c \<in> inUse s \<and> c \<in> set (pool s) then Some (snd (release c s), pending) else None)"
| "step (Remove c) (s, pending) = Some (removeConnection c s, pending)"

fun run :: "event list \<Rightarrow> pool_state \<times> waiter set \<Rightarrow> (pool_state \<times> waiter set) option" where
  "run [] st = Some st"
| "run (e # es) st = (case step e st of None \<Rightarrow> None | Some st' \<Rightarrow> run es st')"

text \<open>The callers an event parks in the queue and the callers it resumes, and both lists
  for a whole interleaving.\<close>

definition enqueued :: "event \<Rightarrow> pool_state \<Rightarrow> waiter list" where
  "enqueued e s =
     (case e of
        Acquire w \<Rightarrow> (if fst (acquire w s) = Queued then [w] else [])
      | _ \<Rightarrow> [])"

definition served :: "event \<Rightarrow> pool_state \<Rightarrow> waiter list" where
  "served e s =
     (case e of
        Release c \<Rightarrow> (case fst (release c s) of Some (w, c') \<Rightarrow> [w] | None \<Rightarrow> [])
      | _ \<Rightarrow> [])"

fun history :: "event list \<Rightarrow> pool_state \<times> waiter set \<Rightarrow> waiter list \<times> waiter list" where
  "history [] st = ([], [])"
| "history (e # es) st =
     (case step e st of
        None \<Rightarrow> ([], [])
      | Some st' \<Rightarrow>
          (let (enq, srv) = history es st'
           in (enqueued e (fst st) @ enq, served e (fst st) @ srv)))"

text \<open>A sequence of releases, with the hand-overs it makes, in order.\<close>

fun release_all :: "conn list \<Rightarrow> pool_state \<Rightarrow> (waiter \<times> conn) list \<times> pool_state" where
  "release_all [] s = ([], s)"
| "release_all (c # cs) s =
     (let (handed, s1) = release c s;
          (rest, s2) = release_all cs s1
      in (case handed of None \<Rightarrow> rest | Some h \<Rightarrow> h # rest, s2))"

section \<open>Connection creation\<close>

text \<open>\<^verbatim>\<open>_createConnection\<close> (server.js 62-99). The daemon is a parameter: \<open>init k\<close> is
  what \<^verbatim>\<open>new NodeClam().init(...)\<close> comes to on the \<open>k\<close>-th try. The loop returns the
  outcome, the \<^verbatim>\<open>initialized\<close> flag, and the tries and waits (in ms) it made. A \<^verbatim>\<open>for\<close>
  loop that ends without \<^verbatim>\<open>return\<close> makes the function return \<^verbatim>\<open>undefined\<close>.\<close>

datatype create_event = Connect nat | Backoff nat

datatype created = Session conn | CreateThrew js_error | ReturnedUndefined

definition createConnection_maxRetries :: nat where
  "createConnection_maxRetries = 10"

definition createConnection_delay :: nat where
  "createConnection_delay = 3000"

function createConnection_loop ::
  "(nat \<Rightarrow> js_error + conn) \<Rightarrow> nat \<Rightarrow> bool \<Rightarrow> created \<times> bool \<times> create_event list" where
  "createConnection_loop init attempt ini =
     (if attempt \<le> createConnection_maxRetries
      then (case init attempt of
              Inr clamscan \<Rightarrow> (Session clamscan, True, [Connect attempt])
            | Inl error \<Rightarrow>
                if attempt < createConnection_maxRetries
                then (let (r, i, tr) = createConnection_loop init (attempt + 1) ini
                      in (r, i, Connect attempt # Backoff (createConnection_delay * attempt) # tr))
                else (CreateThrew error, ini, [Connect attempt]))
      else (ReturnedUndefined, ini, []))"
  by pat_completeness auto
termination
  by (relation "measure (\<lambda>(init, attempt, ini). Suc createConnection_maxRetries - attempt)") auto

definition createConnection ::
  "(nat \<Rightarrow> js_error + conn) \<Rightarrow> pool_state \<Rightarrow> created \<times> pool_state \<times> create_event list" where
  "createConnection init s =
     (let (r, i, tr) = createConnection_loop init 1 (initialized s)
      in (r, s\<lparr>initialized := i\<rparr>, tr))"

text \<open>\<^verbatim>\<open>initClamScan\<close> (server.js 165-174), run at start-up and by the upload handler
  while the pool is not ready: one creation whose session is pushed into the pool,
  idle and without a look at the limit; a failure is logged and swallowed. (The loop
  started at 1 never returns \<^verbatim>\<open>undefined\<close>, so that case pushes nothing here.)\<close>

definition initClamScan ::
  "(nat \<Rightarrow> js_error + conn) \<Rightarrow> pool_state \<Rightarrow> pool_state \<times> create_event list" where
  "initClamScan init s =
     (case createConnection init s of
        (Session conn, s1, tr) \<Rightarrow> (s1\<lparr>pool := pool s1 @ [conn]\<rparr>, tr)
      | (r, s1, tr) \<Rightarrow> (s1, tr))"

fun is_Connect :: "create_event \<Rightarrow> bool" where
  "is_Connect (Connect k) = True"
| "is_Connect (Backoff ms) = False"

section \<open>The retry controller\<close>

record file_result = scan_result +
  fileSize :: nat

definition scanFile_maxRetries :: nat where
  "scanFile_maxRetries = 2"

definition unknown_command_error :: js_error where
  "unknown_command_error =
     Error ''Stream scanning returned UNKNOWN COMMAND - ClamAV stream scanning may not be supported'' []"

definition raw_unknown_command :: "response option \<Rightarrow> bool" where
  "raw_unknown_command raw =
     (case raw of None \<Rightarrow> False | Some object \<Rightarrow> obj_resultString object = JStr ''UNKNOWN COMMAND'')"

text \<open>The \<^verbatim>\<open>try\<close> block of scanFile (server.js 297-310) for one settled scanWithStream
  promise; a rejection of the result is what the \<^verbatim>\<open>catch\<close> block receives.\<close>

definition scanFile_try :: "scan_result settled \<Rightarrow> nat \<Rightarrow> file_result settled" where
  "scanFile_try p fsize =
     (case p of
        Resolved result \<Rightarrow>
          if truthy (needsFallback result) \<or> raw_unknown_command (rawResult result)
          then Rejected unknown_command_error
          else Resolved (scan_result.extend result (file_result.fields fsize))
      | Rejected e \<Rightarrow> Rejected e
      | Unsettled \<Rightarrow> Unsettled)"

datatype scan_event = Scan nat | Sleep nat

text \<open>scanFile (server.js 294-323). \<open>sws k\<close> is what the scanWithStream call made with
  \<^verbatim>\<open>retryCount = k\<close> comes to. The result is paired with the attempts made and the
  waits (in ms) between them.\<close>

function scanFile ::
  "(nat \<Rightarrow> scan_result settled) \<Rightarrow> nat \<Rightarrow> nat \<Rightarrow> file_result settled \<times> scan_event list" where
  "scanFile sws fsize retryCount =
     (case scanFile_try (sws retryCount) fsize of
        Resolved r \<Rightarrow> (Resolved r, [Scan retryCount])
      | Unsettled \<Rightarrow> (Unsettled, [Scan retryCount])
      | Rejected error \<Rightarrow>
          if transport_error error \<and> retryCount < scanFile_maxRetries
          then (let (r, tr) = scanFile sws fsize (retryCount + 1)
                in (r, Scan retryCount # Sleep (1000 * (retryCount + 1)) # tr))
          else (Rejected error, [Scan retryCount]))"
  by pat_completeness auto
termination
  by (relation "measure (\<lambda>(sws, fsize, retryCount). scanFile_maxRetries - retryCount)") auto

fun is_Scan :: "scan_event \<Rightarrow> bool" where
  "is_Scan (Scan k) = True"
| "is_Scan (Sleep ms) = False"

section \<open>The claims' vocabulary\<close>

text \<open>A virus-name field is non-empty: the \<^verbatim>\<open>viruses\<close> field is a non-empty array, or the
  \<^verbatim>\<open>virus\<close> field is a non-empty string, a non-empty array or an object of positive
  length.\<close>

definition nonempty_array :: "jsval \<Rightarrow> bool" where
  "nonempty_array v = (case v of JArr xs \<Rightarrow> xs \<noteq> [] | _ \<Rightarrow> False)"

definition nonempty_names :: "jsval \<Rightarrow> bool" where
  "nonempty_names v =
     (case v of JArr xs \<Rightarrow> xs \<noteq> [] | JStr s \<Rightarrow> s \<noteq> [] | JObj b \<Rightarrow> b | _ \<Rightarrow> False)"

text \<open>A field contains a token: it is a string in which the token occurs somewhere.\<close>

definition contains_token :: "jsval \<Rightarrow> string \<Rightarrow> bool" where
  "contains_token f t = (\<exists>a b. f = JStr (a @ t @ b))"

text \<open>The disjunction of the three markers: the explicit flag, a non-empty name field,
  a \<^verbatim>\<open>FOUND\<close> or \<^verbatim>\<open>Infected\<close> token in the file field.\<close>

definition marked_infected :: "response \<Rightarrow> bool" where
  "marked_infected object =
     (isInfectedFlag object \<or>
      nonempty_array (obj_viruses object) \<or> nonempty_names (obj_virus object) \<or>
      contains_token (obj_file object) ''FOUND'' \<or> contains_token (obj_file object) ''Infected'')"

text \<open>The pattern \<^verbatim>\<open>/FOUND:\s*(.+)/i\<close> read as a decomposition of the string: six characters
  spelling \<^verbatim>\<open>FOUND:\<close> in any mix of cases, with no such spelling starting further left;
  then white space; then the name, which is not empty, does not begin with white space
  and runs to the end of the string or of the line.\<close>

definition spells_found :: "string \<Rightarrow> bool" where
  "spells_found f = list_all2 (\<lambda>c ul. c = fst ul \<or> c = snd ul) f (zip ''FOUND:'' ''found:'')"

definition found_pattern ::
  "string \<Rightarrow> string \<Rightarrow> string \<Rightarrow> string \<Rightarrow> string \<Rightarrow> string \<Rightarrow> bool" where
  "found_pattern s pre f ws name rest =
     (s = pre @ f @ ws @ name @ rest \<and>
      spells_found f \<and>
      (\<forall>i < length pre. \<not> spells_found (take 6 (drop i s))) \<and>
      (\<forall>c \<in> set ws. js_space c) \<and>
      name \<noteq> [] \<and> \<not> js_space (hd name) \<and>
      (\<forall>c \<in> set name. \<not> line_terminator c) \<and>
      (rest = [] \<or> line_terminator (hd rest)))"

text \<open>\<open>r\<close> is \<open>m\<close> trimmed: \<open>m\<close> without the white space at its two ends.\<close>

definition trimmed_of :: "string \<Rightarrow> string \<Rightarrow> bool" where
  "trimmed_of m r =
     (\<exists>a b. m = a @ r @ b \<and> (\<forall>c \<in> set a. js_space c) \<and> (\<forall>c \<in> set b. js_space c) \<and>
            (r = [] \<or> (\<not> js_space (hd r) \<and> \<not> js_space (last r))))"

text \<open>Connection creation as the policy describes it: the first try that succeeds among
  tries \<open>a\<close> to 10, and the tries and waits that precede try \<open>k\<close>.\<close>

definition succeeded :: "js_error + conn \<Rightarrow> bool" where
  "succeeded r = (case r of Inr c \<Rightarrow> True | Inl e \<Rightarrow> False)"

definition first_success :: "(nat \<Rightarrow> js_error + conn) \<Rightarrow> nat \<Rightarrow> nat option" where
  "first_success init a =
     List.find (\<lambda>k. succeeded (init k)) [a..<Suc createConnection_maxRetries]"

definition failed_tries :: "nat \<Rightarrow> nat \<Rightarrow> create_event list" where
  "failed_tries a k =
     concat (map (\<lambda>i. [Connect i, Backoff (createConnection_delay * i)]) [a..<k])"

section \<open>Concrete inputs\<close>

definition t0 :: timings where
  "t0 = \<lparr> t_streamProcessingTime = 0, t_scanDuration = 12, t_totalDuration = 12 \<rparr>"

definition epipe :: js_error where
  "epipe = Error ''write EPIPE''
     [(''errno'', JNum (- 32)), (''code'', JStr ''EPIPE''), (''syscall'', JStr ''write'')]"

definition refused :: js_error where
  "refused = Error ''connect ECONNREFUSED 127.0.0.1:4000'' [(''code'', JStr ''ECONNREFUSED'')]"

text \<open>The pool after a start-up at which the daemon answered the first try: one idle
  connection, numbered 1.\<close>

definition up_at_once :: "nat \<Rightarrow> js_error + conn" where
  "up_at_once k = Inr 1"

definition warm_pool :: pool_state where
  "warm_pool =
     \<lparr> pool = [1], inUse = {}, maxConnections = 5, queue = [], maxQueueSize = 20,
       initialized = True \<rparr>"

text \<open>Six uploads, one after the other: the first takes the idle connection, the next
  four get a new connection each (numbered like the upload), the sixth has to wait.\<close>

definition six_uploads :: "event list" where
  "six_uploads =
     [Acquire 1, Acquire 2, Created 2 2, Acquire 3, Created 3 3,
      Acquire 4, Created 4 4, Acquire 5, Created 5 5, Acquire 6]"

definition busy_pool :: pool_state where
  "busy_pool =
     \<lparr> pool = [1, 2, 3, 4, 5], inUse = {1, 2, 3, 4, 5}, maxConnections = 5,
       queue = [6], maxQueueSize = 20, initialized = True \<rparr>"

definition pool_after_fault :: pool_state where
  "pool_after_fault =
     \<lparr> pool = [2, 3, 4, 5], inUse = {2, 3, 4, 5}, maxConnections = 5,
       queue = [], maxQueueSize = 20, initialized = True \<rparr>"

text \<open>Six uploads arriving together: every \<^verbatim>\<open>acquire()\<close> runs before the first creation
  has finished.\<close>

definition six_at_once :: "event list" where
  "six_at_once =
     [Acquire 1, Acquire 2, Acquire 3, Acquire 4, Acquire 5, Acquire 6,
      Created 2 2, Created 3 3, Created 4 4, Created 5 5, Created 6 6]"

definition overfull_pool :: pool_state where
  "overfull_pool =
     \<lparr> pool = [1, 2, 3, 4, 5, 6], inUse = {1, 2, 3, 4, 5, 6}, maxConnections = 5,
       queue = [], maxQueueSize = 20, initialized = True \<rparr>"

text \<open>Capacity 2, queue capacity 1, both connections busy and one caller waiting.\<close>

definition saturated_pool :: pool_state where
  "saturated_pool =
     \<lparr> pool = [1, 2], inUse = {1, 2}, maxConnections = 2,
       queue = [3], maxQueueSize = 1, initialized = True \<rparr>"

definition busy_hour :: "event list" where
  "busy_hour = [Acquire 4, Acquire 5, Release 2, Acquire 6, Release 1, Release 2]"

definition waiting_pool :: pool_state where
  "waiting_pool =
     \<lparr> pool = [1, 2, 3], inUse = {1, 2, 3}, maxConnections = 3,
       queue = [7, 8, 9], maxQueueSize = 20, initialized = True \<rparr>"

definition no_fields :: response where
  "no_fields =
     \<lparr> obj_resultString = JUndefined, obj_viruses = JUndefined, obj_virus = JUndefined,
       obj_isInfected = JUndefined, obj_infected = JUndefined, obj_file = JUndefined \<rparr>"

definition unsupported_reply :: response where
  "unsupported_reply =
     no_fields\<lparr> obj_resultString := JStr ''UNKNOWN COMMAND'', obj_isInfected := JBool True,
       obj_viruses := JArr [JStr ''Win.Test.EICAR_HDB-1''] \<rparr>"

definition unnamed_infection :: response where
  "unnamed_infection = no_fields\<lparr> obj_isInfected := JBool True, obj_viruses := JArr [] \<rparr>"

definition eicar_reply :: response where
  "eicar_reply = no_fields\<lparr> obj_file := JStr ''FOUND: EICAR-Test-File'' \<rparr>"

text \<open>The line clamd itself answers for an infected stream, and an answer with an empty
  \<^verbatim>\<open>viruses\<close> array beside the marker.\<close>

definition clamd_line :: response where
  "clamd_line = no_fields\<lparr> obj_file := JStr ''stream: Win.Test.EICAR_HDB-1 FOUND'' \<rparr>"

definition empty_names_marker :: response where
  "empty_names_marker =
     no_fields\<lparr> obj_viruses := JArr [], obj_file := JStr ''FOUND: EICAR-Test-File'' \<rparr>"

definition lower_case_marker :: response where
  "lower_case_marker = no_fields\<lparr> obj_file := JStr ''x FOUND found:  A FOUND: b  '' \<rparr>"



definition always_epipe :: "nat \<Rightarrow> scan_result settled" where
  "always_epipe k = Rejected epipe"

definition down_twice :: "nat \<Rightarrow> js_error + conn" where
  "down_twice k = (if k < 3 then Inl refused else Inr 7)"

definition always_down :: "nat \<Rightarrow> js_error + conn" where
  "always_down k = Inl refused"

section \<open>Interpreting the daemon's answer\<close>

text \<open>\<^verbatim>\<open>includes\<close>, the case folding and the pattern, said without the code's
  recursion.\<close>

lemma includes_str_iff: "includes_str s t = (\<exists>a b. s = a @ t @ b)"
proof (induction s)
  case Nil
  then show ?case by simp
next
  case (Cons c cs)
  have "starts_with (c # cs) t = (\<exists>b. c # cs = t @ b)"
    unfolding starts_with_def
    by (metis append_eq_conv_conj)
  moreover have "(\<exists>a b. c # cs = a @ t @ b) = ((\<exists>b. c # cs = t @ b) \<or> (\<exists>a b. cs = a @ t @ b))"
  proof
    assume "\<exists>a b. c # cs = a @ t @ b"
    then obtain a b where ab: "c # cs = a @ t @ b" by blast
    show "(\<exists>b. c # cs = t @ b) \<or> (\<exists>a b. cs = a @ t @ b)"
    proof (cases a)
      case Nil
      then show ?thesis using ab by auto
    next
      case (Cons x a')
      then have "cs = a' @ t @ b" using ab by simp
      then show ?thesis by blast
    qed
  next
    assume "(\<exists>b. c # cs = t @ b) \<or> (\<exists>a b. cs = a @ t @ b)"
    then show "\<exists>a b. c # cs = a @ t @ b"
    proof
      assume "\<exists>b. c # cs = t @ b"
      then obtain b where "c # cs = [] @ t @ b" by auto
      then show ?thesis by blast
    next
      assume "\<exists>a b. cs = a @ t @ b"
      then obtain a b where "c # cs = (c # a) @ t @ b" by auto
      then show ?thesis by blast
    qed
  qed
  ultimately show ?case using Cons.IH by simp
qed

lemma file_includes_iff: "file_includes f t = contains_token f t"
  by (cases f) (auto simp: file_includes_def contains_token_def includes_str_iff)

lemma js_upper_letter:
  assumes "(of_char u :: nat) + 32 = of_char l" and "65 \<le> (of_char u :: nat)" and "(of_char u :: nat) \<le> 90"
  shows "(js_upper c = u) = (c = u \<or> c = l)"
proof -
  let ?n = "of_char c :: nat"
  have lt: "?n < 256" by simp
  show ?thesis
  proof (cases "97 \<le> ?n \<and> ?n \<le> 122")
    case True
    then have up: "js_upper c = char_of (?n - 32)" by (simp add: js_upper_def Let_def)
    have ne: "c \<noteq> u" using True assms(3) by auto
    have "(char_of (?n - 32) = u) = (?n - 32 = of_char u)"
    proof
      assume "char_of (?n - 32) = u"
      then have "(of_char (char_of (?n - 32) :: char) :: nat) = of_char u" by simp
      moreover have "?n - 32 < 256" using True by arith
      ultimately show "?n - 32 = of_char u" by simp
    next
      assume "?n - 32 = of_char u"
      then show "char_of (?n - 32) = u" by simp
    qed
    also have "\<dots> = (?n = (of_char l :: nat))" using True assms(1) by arith
    also have "\<dots> = (c = l)" by (rule of_char_eq_iff)
    finally show ?thesis using up ne by simp
  next
    case False
    then have up: "js_upper c = c" by (auto simp add: js_upper_def Let_def)
    have "c \<noteq> l"
    proof
      assume "c = l"
      then have "?n = of_char u + 32" using assms(1) by simp
      then show False using False assms(2,3) by auto
    qed
    then show ?thesis using up by auto
  qed
qed

lemma js_upper_colon: "(js_upper c = CHR '':'') = (c = CHR '':'')"
proof (cases "97 \<le> (of_char c :: nat) \<and> (of_char c :: nat) \<le> 122")
  case True
  then have up: "js_upper c = char_of ((of_char c :: nat) - 32)" by (simp add: js_upper_def Let_def)
  have "c \<noteq> CHR '':''" using True by auto
  moreover have "char_of ((of_char c :: nat) - 32) \<noteq> CHR '':''"
  proof
    assume "char_of ((of_char c :: nat) - 32) = CHR '':''"
    then have "(of_char (char_of ((of_char c :: nat) - 32) :: char) :: nat) = of_char CHR '':''" by simp
    moreover have "(of_char c :: nat) - 32 < 256" using True by arith
    ultimately have "(of_char c :: nat) - 32 = 58" by simp
    then show False using True by arith
  qed
  ultimately show ?thesis using up by simp
next
  case False
  then show ?thesis by (auto simp add: js_upper_def Let_def)
qed

lemma js_upper_FOUND:
  "(js_upper c = CHR ''F'') = (c = CHR ''F'' \<or> c = CHR ''f'')"
  "(js_upper c = CHR ''O'') = (c = CHR ''O'' \<or> c = CHR ''o'')"
  "(js_upper c = CHR ''U'') = (c = CHR ''U'' \<or> c = CHR ''u'')"
  "(js_upper c = CHR ''N'') = (c = CHR ''N'' \<or> c = CHR ''n'')"
  "(js_upper c = CHR ''D'') = (c = CHR ''D'' \<or> c = CHR ''d'')"
  by (rule js_upper_letter; simp)+

lemma spells_found_iff: "spells_found f = (map js_upper f = ''FOUND:'')"
  by (auto simp: spells_found_def list_all2_Cons2 js_upper_FOUND js_upper_colon)

lemma spells_found_length: "spells_found f \<Longrightarrow> length f = 6"
  by (auto simp: spells_found_def dest: list_all2_lengthD)

lemma starts_with_ci_iff: "starts_with_ci s ''FOUND:'' = spells_found (take 6 s)"
proof -
  have u: "map js_upper ''FOUND:'' = ''FOUND:''" by code_simp
  have l: "length ''FOUND:'' = (6::nat)" by simp
  show ?thesis unfolding starts_with_ci_def spells_found_iff u l by (rule refl)
qed

lemma dot_plus_name:
  assumes "name \<noteq> []" and "\<forall>c \<in> set name. \<not> line_terminator c"
    and "rest = [] \<or> line_terminator (hd rest)"
  shows "dot_plus (name @ rest) = Some name"
proof -
  have "takeWhile (\<lambda>c. \<not> line_terminator c) rest = []"
    using assms(3) by (cases rest) auto
  then have "takeWhile (\<lambda>c. \<not> line_terminator c) (name @ rest) = name"
    using assms(2) by (simp add: takeWhile_append2)
  then show ?thesis using assms(1) by (simp add: dot_plus_def)
qed

lemma ws_star_first: "dot_plus (drop n s) = Some m \<Longrightarrow> ws_star n s = Some m"
  by (cases n) simp_all

lemma after_found_parts:
  assumes "\<forall>c \<in> set ws. js_space c" and "name \<noteq> []" and "\<not> js_space (hd name)"
    and "\<forall>c \<in> set name. \<not> line_terminator c"
    and "rest = [] \<or> line_terminator (hd rest)"
  shows "after_found (ws @ name @ rest) = Some name"
proof -
  have "takeWhile js_space (name @ rest) = []"
    using assms(2,3) by (cases name) auto
  then have tw: "takeWhile js_space (ws @ name @ rest) = ws"
    using assms(1) by (simp add: takeWhile_append2)
  have "dot_plus (drop (length ws) (ws @ name @ rest)) = Some name"
    using dot_plus_name [OF assms(2,4,5)] by simp
  then have "ws_star (length ws) (ws @ name @ rest) = Some name"
    by (rule ws_star_first)
  then show ?thesis by (simp add: after_found_def tw)
qed

lemma found_match_leftmost:
  assumes "found_pattern s pre f ws name rest"
  shows "found_match s = Some name"
proof -
  from assms have s: "s = pre @ f @ ws @ name @ rest" and f: "spells_found f"
    and left: "\<forall>i < length pre. \<not> spells_found (take 6 (drop i s))"
    and rest: "\<forall>c \<in> set ws. js_space c" "name \<noteq> []" "\<not> js_space (hd name)"
      "\<forall>c \<in> set name. \<not> line_terminator c" "rest = [] \<or> line_terminator (hd rest)"
    by (auto simp: found_pattern_def)
  have af: "after_found (ws @ name @ rest) = Some name"
    using rest by (rule after_found_parts)
  have lf: "length f = 6" using f by (rule spells_found_length)
  have here: "found_match (f @ ws @ name @ rest) = Some name"
  proof -
    obtain c cs where fc: "f = c # cs" using lf by (cases f) auto
    have "starts_with_ci (f @ ws @ name @ rest) ''FOUND:''"
      using f lf by (simp add: starts_with_ci_iff)
    moreover have "drop 6 (f @ ws @ name @ rest) = ws @ name @ rest"
      using lf by simp
    ultimately show ?thesis
      using af unfolding fc by simp
  qed
  have "\<forall>i < length pre. \<not> spells_found (take 6 (drop i (pre @ f @ ws @ name @ rest))) \<Longrightarrow>
        found_match (pre @ f @ ws @ name @ rest) = Some name"
  proof (induction pre)
    case Nil
    then show ?case using here by simp
  next
    case (Cons c pre)
    have "\<not> spells_found (take 6 (drop 0 ((c # pre) @ f @ ws @ name @ rest)))"
      using Cons.prems by blast
    then have no: "\<not> starts_with_ci (c # pre @ f @ ws @ name @ rest) ''FOUND:''"
      by (simp add: starts_with_ci_iff)
    have "\<forall>i < length pre. \<not> spells_found (take 6 (drop i (pre @ f @ ws @ name @ rest)))"
    proof (intro allI impI)
      fix i assume "i < length pre"
      then have "Suc i < length (c # pre)" by simp
      from Cons.prems [rule_format, OF this]
      show "\<not> spells_found (take 6 (drop i (pre @ f @ ws @ name @ rest)))" by simp
    qed
    from Cons.IH [OF this] show ?case using no by simp
  qed
  then show ?thesis using left s by simp
qed

lemma found_match_none:
  "\<forall>i. \<not> spells_found (take 6 (drop i s)) \<Longrightarrow> found_match s = None"
proof (induction s)
  case Nil
  then show ?case by simp
next
  case (Cons c cs)
  have "\<not> spells_found (take 6 (drop 0 (c # cs)))" using Cons.prems by blast
  then have no: "\<not> starts_with_ci (c # cs) ''FOUND:''" by (simp add: starts_with_ci_iff)
  have "\<forall>i. \<not> spells_found (take 6 (drop i cs))"
  proof
    fix i
    from Cons.prems [rule_format, of "Suc i"]
    show "\<not> spells_found (take 6 (drop i cs))" by simp
  qed
  from Cons.IH [OF this] show ?case using no by simp
qed

lemma trim_trimmed: "trimmed_of m (trim m)"
proof -
  let ?a = "takeWhile js_space m"
  let ?m' = "dropWhile js_space m"
  let ?b' = "takeWhile js_space (rev ?m')"
  let ?r' = "dropWhile js_space (rev ?m')"
  have t: "trim m = rev ?r'" by (simp add: trim_def)
  have "rev ?m' = ?b' @ ?r'" by simp
  then have "?m' = rev ?r' @ rev ?b'" by (metis rev_append rev_rev_ident)
  then have m: "m = ?a @ trim m @ rev ?b'"
    using t by (metis takeWhile_dropWhile_id)
  have a: "\<forall>c \<in> set ?a. js_space c" by (auto dest: set_takeWhileD)
  have b: "\<forall>c \<in> set (rev ?b'). js_space c" by (auto dest: set_takeWhileD)
  have ends: "trim m = [] \<or> (\<not> js_space (hd (trim m)) \<and> \<not> js_space (last (trim m)))"
  proof (cases "?r' = []")
    case True
    then show ?thesis using t by simp
  next
    case False
    then have h: "\<not> js_space (hd ?r')" by (rule hd_dropWhile)
    have l: "last (trim m) = hd ?r'" using t False by (simp add: last_rev)
    have "rev ?m' \<noteq> []" using False by (metis dropWhile.simps(1))
    then have ne: "?m' \<noteq> []" by simp
    then have hm: "\<not> js_space (hd ?m')" by (rule hd_dropWhile)
    have "last ?r' = last (rev ?m')"
      using False by (metis last_appendR takeWhile_dropWhile_id)
    then have "hd (trim m) = hd ?m'"
      using t False ne by (simp add: hd_rev last_rev)
    then show ?thesis using h l hm by simp
  qed
  show ?thesis
    unfolding trimmed_of_def using m a b ends by blast
qed

lemma truthy_js_and: "truthy (js_and a b) = (truthy a \<and> truthy b)"
  by (simp add: js_and_def)

lemma truthy_js_or: "truthy (js_or a b) = (truthy a \<or> truthy b)"
  by (simp add: js_or_def)

lemma truthy_hasViruses:
  "truthy (hasViruses object) =
     (nonempty_array (obj_viruses object) \<or> nonempty_names (obj_virus object))"
  by (cases "obj_viruses object"; cases "obj_virus object")
     (simp_all add: hasViruses_def truthy_js_or truthy_js_and nonempty_array_def
        nonempty_names_def)

lemma includes_str_nonempty: "includes_str s (c # t) \<Longrightarrow> s \<noteq> []"
  by (cases s) simp_all

lemma truthy_hasVirusInName:
  "truthy (hasVirusInName object) =
     (contains_token (obj_file object) ''FOUND'' \<or> contains_token (obj_file object) ''Infected'')"
  unfolding file_includes_iff [symmetric]
  by (cases "obj_file object")
     (auto simp: hasVirusInName_def truthy_js_and file_includes_def dest: includes_str_nonempty)

lemma truthy_isInfected_of: "truthy (isInfected_of object) = marked_infected object"
  by (simp add: isInfected_of_def truthy_js_or truthy_hasViruses truthy_hasVirusInName
        marked_infected_def)

lemma isInfected_of_strict:
  "truthy (isInfected_of object) \<Longrightarrow> isInfected_of object = JBool True"
  by (auto simp: isInfected_of_def hasViruses_def hasVirusInName_def js_or_def js_and_def
      split: if_splits)

lemma isInfected_of_iff: "(isInfected_of object = JBool True) = marked_infected object"
  using isInfected_of_strict [of object] truthy_isInfected_of [of object] by auto

lemma gate_passed:
  "obj_resultString object \<noteq> JStr ''UNKNOWN COMMAND'' \<Longrightarrow>
     interpret_response t (Some object) = Resolved (classify t object)"
  by (simp add: interpret_response_def)

text \<open>
  Claim C5. A daemon answer whose result string is \<^verbatim>\<open>UNKNOWN COMMAND\<close> is turned into a
  result with \<^verbatim>\<open>needsFallback = true\<close>, \<^verbatim>\<open>isInfected = false\<close>, no viruses and the method
  tag of the failed stream attempt; and whatever the answer, a result whose
  \<^verbatim>\<open>needsFallback\<close> is truthy reports \<^verbatim>\<open>isInfected = false\<close> and no viruses.
\<close>

theorem unknown_command_needs_fallback:
  "(obj_resultString object = JStr ''UNKNOWN COMMAND'' \<longrightarrow>
      interpret_response t (Some object) =
        Resolved \<lparr> isInfected = JBool False, viruses = [],
          scan_method = ''clamdscan (stream - failed)'',
          streamProcessingTime = t_streamProcessingTime t,
          scanDuration = t_scanDuration t,
          totalDuration = t_totalDuration t,
          rawResult = Some object, needsFallback = JBool True \<rparr>) \<and>
   (interpret_response t obj = Resolved r \<and> truthy (needsFallback r) \<longrightarrow>
      isInfected r = JBool False \<and> viruses r = [] \<and>
      scan_method r = ''clamdscan (stream - failed)'')"
  by (auto simp: interpret_response_def classify_def split: option.splits if_splits)

theorem unknown_command_needs_fallback_witness:
  "obj_resultString unsupported_reply = JStr ''UNKNOWN COMMAND'' \<and>
   isInfectedFlag unsupported_reply \<and>
   interpret_response t0 (Some unsupported_reply) =
     Resolved \<lparr> isInfected = JBool False, viruses = [],
       scan_method = ''clamdscan (stream - failed)'',
       streamProcessingTime = 0, scanDuration = 12, totalDuration = 12,
       rawResult = Some unsupported_reply, needsFallback = JBool True \<rparr>"
  using unknown_command_needs_fallback
    [of unsupported_reply t0 "Some unsupported_reply"
        "\<lparr> isInfected = JBool False, viruses = [],
           scan_method = ''clamdscan (stream - failed)'',
           streamProcessingTime = 0, scanDuration = 12, totalDuration = 12,
           rawResult = Some unsupported_reply, needsFallback = JBool True \<rparr>"]
  by (simp add: unsupported_reply_def no_fields_def t0_def isInfectedFlag_def)

text \<open>
  Claim C6. Whenever the interpreted result reports infection, its virus list is not
  empty; and when infection is reported although no name was found in the \<^verbatim>\<open>viruses\<close>
  field, the \<^verbatim>\<open>virus\<close> field or the file field, the list is exactly the one generic
  label \<^verbatim>\<open>Threat detected\<close>.
\<close>

theorem infected_has_threat_name:
  "interpret_response t (Some object) = Resolved r \<Longrightarrow>
     (truthy (isInfected r) \<longrightarrow> viruses r \<noteq> []) \<and>
     (truthy (isInfected r) \<and> extract_viruses object = [] \<longrightarrow>
        viruses r = [JStr ''Threat detected''])"
  by (auto simp: interpret_response_def classify_def final_viruses_def Let_def split: if_splits)

theorem infected_has_threat_name_witness:
  "interpret_response t0 (Some unnamed_infection) =
     Resolved \<lparr> isInfected = JBool True, viruses = [JStr ''Threat detected''],
       scan_method = ''clamdscan (stream)'',
       streamProcessingTime = 0, scanDuration = 12, totalDuration = 12,
       rawResult = Some (unnamed_infection\<lparr>obj_viruses := JArr [JStr ''Threat detected'']\<rparr>),
       needsFallback = JUndefined \<rparr> \<and>
   extract_viruses unnamed_infection = []"
proof -
  have ex: "extract_viruses unnamed_infection = []"
    by (simp add: extract_viruses_def unnamed_infection_def no_fields_def js_and_def)
  have inf: "isInfected_of unnamed_infection = JBool True"
    by (simp add: isInfected_of_def isInfectedFlag_def unnamed_infection_def no_fields_def
          js_or_def)
  have raw: "answer_after_push unnamed_infection =
      unnamed_infection\<lparr>obj_viruses := JArr [JStr ''Threat detected'']\<rparr>"
    using ex inf by (simp add: answer_after_push_def js_and_def)
       (simp add: unnamed_infection_def no_fields_def)
  have res: "interpret_response t0 (Some unnamed_infection) =
      Resolved \<lparr> isInfected = JBool True, viruses = final_viruses unnamed_infection,
        scan_method = ''clamdscan (stream)'',
        streamProcessingTime = 0, scanDuration = 12, totalDuration = 12,
        rawResult = Some (unnamed_infection\<lparr>obj_viruses := JArr [JStr ''Threat detected'']\<rparr>),
        needsFallback = JUndefined \<rparr>"
    using inf raw by (simp add: interpret_response_def classify_def t0_def)
       (simp add: unnamed_infection_def no_fields_def)
  from infected_has_threat_name [OF res] ex
  have "final_viruses unnamed_infection = [JStr ''Threat detected'']" by simp
  with res ex show ?thesis by simp
qed

text \<open>
  Claim C7, amended. For every daemon answer that reaches the classification with no
  \<^verbatim>\<open>viruses\<close> array (not even an empty one) and no truthy \<^verbatim>\<open>virus\<close> field, and whose file
  field is a string containing \<^verbatim>\<open>FOUND\<close>: the result reports infection. When the file
  field matches the pattern \<^verbatim>\<open>FOUND:\<close> (in any mix of cases), white space, name, its
  virus list is the name of the leftmost match, trimmed, and nothing else; when
  \<^verbatim>\<open>FOUND:\<close> occurs nowhere in it, as in clamd's own \<^verbatim>\<open>stream: X FOUND\<close>, the list is the
  generic label alone. With the file field \<^verbatim>\<open>FOUND: EICAR-Test-File\<close> the list is
  \<^verbatim>\<open>EICAR-Test-File\<close> alone. An explicit flag is not needed and does not change this, and
  every answer but \<^verbatim>\<open>UNKNOWN COMMAND\<close> reaches the classification.
\<close>

theorem found_marker_extraction:
  assumes "\<not> isArray (obj_viruses object)"
    and "\<not> truthy (obj_virus object)"
    and "obj_file object = JStr (a @ ''FOUND'' @ b)"
  shows "isInfected (classify t object) = JBool True \<and>
         viruses (classify t object) =
           (case found_match (a @ ''FOUND'' @ b) of
              Some m \<Rightarrow> [JStr (trim m)]
            | None \<Rightarrow> [JStr ''Threat detected'']) \<and>
         (found_pattern (a @ ''FOUND'' @ b) pre f ws name rest \<longrightarrow>
            viruses (classify t object) = [JStr (trim name)] \<and> trimmed_of name (trim name)) \<and>
         ((\<forall>i. \<not> spells_found (take 6 (drop i (a @ ''FOUND'' @ b)))) \<longrightarrow>
            viruses (classify t object) = [JStr ''Threat detected'']) \<and>
         (obj_resultString object \<noteq> JStr ''UNKNOWN COMMAND'' \<longrightarrow>
            interpret_response t (Some object) = Resolved (classify t object)) \<and>
         viruses (classify t eicar_reply) = [JStr ''EICAR-Test-File'']"
proof -
  let ?s = "a @ ''FOUND'' @ b"
  have tok: "contains_token (obj_file object) ''FOUND''"
    using assms(3) by (auto simp: contains_token_def)
  then have "marked_infected object" by (simp add: marked_infected_def)
  then have inf: "isInfected_of object = JBool True" by (simp add: isInfected_of_iff)
  have hn: "truthy (hasVirusInName object)"
    using tok by (simp add: truthy_hasVirusInName)
  have "?s \<noteq> []" by simp
  then have ex: "extract_viruses object = match_viruses (JStr ?s)"
    using assms hn by (auto simp: extract_viruses_def truthy_js_and)
  have vs: "viruses (classify t object) =
      (case found_match ?s of Some m \<Rightarrow> [JStr (trim m)] | None \<Rightarrow> [JStr ''Threat detected''])"
    using inf ex
    by (simp add: classify_def final_viruses_def match_viruses_def split: option.splits)
  have c1: "isInfected (classify t object) = JBool True"
    using inf by (simp add: classify_def)
  have c3: "found_pattern ?s pre f ws name rest \<longrightarrow>
      viruses (classify t object) = [JStr (trim name)] \<and> trimmed_of name (trim name)"
  proof (intro impI)
    assume "found_pattern ?s pre f ws name rest"
    then have "found_match ?s = Some name" by (rule found_match_leftmost)
    then have "viruses (classify t object) = [JStr (trim name)]"
      using vs by (simp only: option.case)
    then show "viruses (classify t object) = [JStr (trim name)] \<and> trimmed_of name (trim name)"
      using trim_trimmed [of name] by blast
  qed
  have c4: "(\<forall>i. \<not> spells_found (take 6 (drop i ?s))) \<longrightarrow>
      viruses (classify t object) = [JStr ''Threat detected'']"
  proof (intro impI)
    assume "\<forall>i. \<not> spells_found (take 6 (drop i ?s))"
    then have "found_match ?s = None" by (rule found_match_none)
    then show "viruses (classify t object) = [JStr ''Threat detected'']"
      using vs by (simp only: option.case)
  qed
  have c5: "obj_resultString object \<noteq> JStr ''UNKNOWN COMMAND'' \<longrightarrow>
      interpret_response t (Some object) = Resolved (classify t object)"
    by (simp add: gate_passed)
  have c6: "viruses (classify t eicar_reply) = [JStr ''EICAR-Test-File'']"
    by code_simp
  from c1 vs c3 c4 c5 c6 show ?thesis by blast
qed

lemma lower_case_pattern:
  "found_pattern (''x '' @ ''FOUND'' @ '' found:  A FOUND: b  '')
     ''x FOUND '' ''found:'' ''  '' ''A FOUND: b  '' []"
proof -
  have "\<forall>i \<in> set [0..<8]. \<not> spells_found (take 6 (drop i ''x FOUND found:  A FOUND: b  ''))"
    by code_simp
  then have left: "\<forall>i < length ''x FOUND ''.
      \<not> spells_found (take 6 (drop i (''x '' @ ''FOUND'' @ '' found:  A FOUND: b  '')))"
    by simp
  have sp: "spells_found ''found:''" by code_simp
  have ws: "\<forall>c \<in> set ''  ''. js_space c" by code_simp
  have nm: "\<not> js_space (hd ''A FOUND: b  '')" "\<forall>c \<in> set ''A FOUND: b  ''. \<not> line_terminator c"
    by code_simp+
  show ?thesis
    unfolding found_pattern_def using left sp ws nm by simp
qed

theorem found_marker_extraction_witness:
  "\<not> isArray (obj_viruses lower_case_marker) \<and>
   \<not> truthy (obj_virus lower_case_marker) \<and>
   obj_file lower_case_marker = JStr (''x '' @ ''FOUND'' @ '' found:  A FOUND: b  '') \<and>
   found_pattern (''x '' @ ''FOUND'' @ '' found:  A FOUND: b  '')
     ''x FOUND '' ''found:'' ''  '' ''A FOUND: b  '' [] \<and>
   obj_resultString lower_case_marker \<noteq> JStr ''UNKNOWN COMMAND'' \<and>
   isInfected (classify t0 lower_case_marker) = JBool True \<and>
   viruses (classify t0 lower_case_marker) = [JStr ''A FOUND: b''] \<and>
   interpret_response t0 (Some lower_case_marker) = Resolved (classify t0 lower_case_marker) \<and>
   viruses (classify t0 eicar_reply) = [JStr ''EICAR-Test-File'']"
proof -
  have h1: "\<not> isArray (obj_viruses lower_case_marker)"
    and h2: "\<not> truthy (obj_virus lower_case_marker)"
    and h3: "obj_file lower_case_marker = JStr (''x '' @ ''FOUND'' @ '' found:  A FOUND: b  '')"
    and h4: "obj_resultString lower_case_marker \<noteq> JStr ''UNKNOWN COMMAND''"
    by (simp_all add: lower_case_marker_def no_fields_def)
  have tr: "trim ''A FOUND: b  '' = ''A FOUND: b''" by code_simp
  note ext = found_marker_extraction [OF h1 h2 h3, where pre = "''x FOUND ''"
      and f = "''found:''" and ws = "''  ''" and name = "''A FOUND: b  ''" and rest = "[]"
      and t = t0]
  from ext have i: "isInfected (classify t0 lower_case_marker) = JBool True" by blast
  from ext lower_case_pattern
  have "viruses (classify t0 lower_case_marker) = [JStr (trim ''A FOUND: b  '')]" by blast
  then have v: "viruses (classify t0 lower_case_marker) = [JStr ''A FOUND: b'']"
    using tr by simp
  from ext h4
  have g: "interpret_response t0 (Some lower_case_marker) = Resolved (classify t0 lower_case_marker)"
    by blast
  from ext have e: "viruses (classify t0 eicar_reply) = [JStr ''EICAR-Test-File'']" by blast
  from h1 h2 h3 h4 lower_case_pattern i v g e show ?thesis by blast
qed

theorem found_marker_unmatched_counterexample:
  "\<not> isInfectedFlag clamd_line \<and>
   obj_viruses clamd_line = JUndefined \<and> obj_virus clamd_line = JUndefined \<and>
   obj_resultString clamd_line \<noteq> JStr ''UNKNOWN COMMAND'' \<and>
   obj_file clamd_line = JStr (''stream: Win.Test.EICAR_HDB-1 '' @ ''FOUND'' @ []) \<and>
   interpret_response t0 (Some clamd_line) =
     Resolved \<lparr> isInfected = JBool True, viruses = [JStr ''Threat detected''],
       scan_method = ''clamdscan (stream)'',
       streamProcessingTime = 0, scanDuration = 12, totalDuration = 12,
       rawResult = Some clamd_line, needsFallback = JUndefined \<rparr> \<and>
   \<not> isInfectedFlag empty_names_marker \<and>
   obj_viruses empty_names_marker = JArr [] \<and> obj_virus empty_names_marker = JUndefined \<and>
   obj_resultString empty_names_marker \<noteq> JStr ''UNKNOWN COMMAND'' \<and>
   obj_file empty_names_marker = JStr ''FOUND: EICAR-Test-File'' \<and>
   interpret_response t0 (Some empty_names_marker) =
     Resolved \<lparr> isInfected = JBool True, viruses = [JStr ''Threat detected''],
       scan_method = ''clamdscan (stream)'',
       streamProcessingTime = 0, scanDuration = 12, totalDuration = 12,
       rawResult = Some (empty_names_marker\<lparr>obj_viruses := JArr [JStr ''Threat detected'']\<rparr>),
       needsFallback = JUndefined \<rparr>"
  by code_simp



section \<open>The pool: saturation, hand-over, eviction\<close>

text \<open>
  Claim C3. When the pool holds \<^verbatim>\<open>maxConnections\<close> connections, all of them in use, and
  the queue holds \<^verbatim>\<open>maxQueueSize\<close> entries, \<^verbatim>\<open>acquire()\<close> rejects at once with the error
  "Connection pool queue is full. Too many concurrent scan requests.": the caller is
  not parked and the pool state, the queue included, is unchanged.
\<close>

theorem acquire_rejects_when_saturated:
  assumes "length (pool s) = maxConnections s"
    and "\<forall>c \<in> set (pool s). c \<in> inUse s"
    and "length (queue s) = maxQueueSize s"
  shows "acquire w s = (Failed queue_full_error, s) \<and>
         message queue_full_error =
           ''Connection pool queue is full. Too many concurrent scan requests.''"
proof -
  have "List.find (\<lambda>c. c \<notin> inUse s) (pool s) = None"
    using assms(2) by (simp add: find_None_iff)
  then show ?thesis
    using assms(1,3) by (simp add: acquire_def queue_full_error_def)
qed

theorem acquire_rejects_when_saturated_witness:
  "length (pool saturated_pool) = maxConnections saturated_pool \<and>
   set (pool saturated_pool) \<subseteq> inUse saturated_pool \<and>
   length (queue saturated_pool) = maxQueueSize saturated_pool \<and>
   acquire 4 saturated_pool = (Failed queue_full_error, saturated_pool)"
proof -
  have h1: "length (pool saturated_pool) = maxConnections saturated_pool"
    and h2: "\<forall>c \<in> set (pool saturated_pool). c \<in> inUse saturated_pool"
    and h3: "length (queue saturated_pool) = maxQueueSize saturated_pool"
    by (simp_all add: saturated_pool_def)
  have h2': "set (pool saturated_pool) \<subseteq> inUse saturated_pool"
    using h2 by blast
  from acquire_rejects_when_saturated [OF h1 h2 h3, of 4] h1 h2' h3
  show ?thesis by simp
qed

lemma release_nonempty:
  "queue s \<noteq> [] \<Longrightarrow>
     release c s =
       (Some (hd (queue s), c), s\<lparr>queue := tl (queue s), inUse := insert c (inUse s)\<rparr>)"
  by (simp add: release_def Let_def)

lemma find_Some_holds: "List.find P xs = Some x \<Longrightarrow> P x \<and> x \<in> set xs"
  by (induction xs) (auto split: if_splits)

lemma acquire_Got_idle: "acquire w s = (Got c, s') \<Longrightarrow> c \<notin> inUse s \<and> c \<in> set (pool s)"
  by (auto simp: acquire_def split: option.splits if_splits dest: find_Some_holds)

lemma acquire_Queued: "acquire w s = (Queued, s') \<Longrightarrow> s' = s\<lparr>queue := queue s @ [w]\<rparr>"
  by (auto simp: acquire_def split: option.splits if_splits)

lemma release_all_fifo:
  "length cs \<le> length (queue s) \<Longrightarrow>
     fst (release_all cs s) = zip (queue s) cs \<and>
     queue (snd (release_all cs s)) = drop (length cs) (queue s) \<and>
     inUse (snd (release_all cs s)) = inUse s \<union> set cs \<and>
     pool (snd (release_all cs s)) = pool s"
proof (induction cs arbitrary: s)
  case Nil
  then show ?case by simp
next
  case (Cons c cs)
  then obtain w ws where q: "queue s = w # ws" by (cases "queue s") auto
  let ?s1 = "s\<lparr>queue := tl (queue s), inUse := insert c (inUse s)\<rparr>"
  have r: "release c s = (Some (w, c), ?s1)"
    using q by (simp add: release_nonempty)
  have "length cs \<le> length (queue ?s1)" using Cons.prems q by simp
  from Cons.IH [OF this] show ?case
    using r q by (simp add: split_beta drop_Suc)
qed

lemma step_queue:
  assumes "step e (s, p) = Some (s1, p1)"
  shows "served e s @ queue s1 = queue s @ enqueued e s"
proof (cases e)
  case (Acquire w)
  then have s1: "s1 = snd (acquire w s)"
    using assms by (auto split: prod.splits acquired.splits)
  show ?thesis
    unfolding s1 using Acquire
    by (auto simp: enqueued_def served_def acquire_def split: option.splits)
next
  case (Created w c)
  then show ?thesis
    using assms by (auto simp: enqueued_def served_def acquire_created_def split: if_splits)
next
  case (CreateFailed w err)
  then show ?thesis
    using assms by (auto simp: enqueued_def served_def split: if_splits)
next
  case (Release c)
  then show ?thesis
    using assms
    by (cases "queue s") (auto simp: enqueued_def served_def release_def Let_def split: if_splits)
next
  case (Remove c)
  then show ?thesis
    using assms by (auto simp: enqueued_def served_def removeConnection_def Let_def)
qed

lemma run_fifo:
  "run es (s, p) = Some (s', p') \<Longrightarrow>
     snd (history es (s, p)) @ queue s' = queue s @ fst (history es (s, p))"
proof (induction es arbitrary: s p)
  case Nil
  then show ?case by simp
next
  case (Cons e es)
  then obtain s1 p1 where st: "step e (s, p) = Some (s1, p1)"
    and r: "run es (s1, p1) = Some (s', p')"
    by (auto split: option.splits)
  have "snd (history es (s1, p1)) @ queue s' = queue s1 @ fst (history es (s1, p1))"
    using Cons.IH [OF r] .
  moreover have "served e s @ queue s1 = queue s @ enqueued e s"
    using st by (rule step_queue)
  ultimately show ?case
    using st by (simp add: split_beta)
qed

text \<open>
  Claim C4. A \<^verbatim>\<open>release(conn)\<close> made while the queue is not empty resolves the caller at
  the head of the queue with that connection, removes that caller from the queue and
  leaves the connection marked in use, so an \<^verbatim>\<open>acquire()\<close> that runs next cannot get it.
  A caller that has to wait is put at the tail of the queue, and a sequence of releases
  serves the queue from its head, one caller per release, in that order. In every
  interleaving of pool operations, the callers resumed so far followed by those still
  waiting are the callers waiting at the start followed by those parked since, in the
  order of their arrival.
\<close>

theorem release_hands_over_fifo:
  "(queue s \<noteq> [] \<longrightarrow>
      release c s =
        (Some (hd (queue s), c), s\<lparr>queue := tl (queue s), inUse := insert c (inUse s)\<rparr>) \<and>
      c \<in> inUse (snd (release c s)) \<and>
      fst (acquire w' (snd (release c s))) \<noteq> Got c) \<and>
   (fst (acquire w s) = Queued \<longrightarrow> queue (snd (acquire w s)) = queue s @ [w]) \<and>
   (length cs \<le> length (queue s) \<longrightarrow>
      fst (release_all cs s) = zip (queue s) cs \<and>
      queue (snd (release_all cs s)) = drop (length cs) (queue s) \<and>
      set cs \<subseteq> inUse (snd (release_all cs s))) \<and>
   (run es (s, p) = Some (s', p') \<longrightarrow>
      snd (history es (s, p)) @ queue s' = queue s @ fst (history es (s, p)))"
proof (intro conjI impI)
  assume q: "queue s \<noteq> []"
  show r: "release c s =
      (Some (hd (queue s), c), s\<lparr>queue := tl (queue s), inUse := insert c (inUse s)\<rparr>)"
    using q by (rule release_nonempty)
  then show inuse: "c \<in> inUse (snd (release c s))" by simp
  show "fst (acquire w' (snd (release c s))) \<noteq> Got c"
  proof
    assume "fst (acquire w' (snd (release c s))) = Got c"
    then have "acquire w' (snd (release c s)) = (Got c, snd (acquire w' (snd (release c s))))"
      by (metis prod.collapse)
    from acquire_Got_idle [OF this] inuse show False by simp
  qed
next
  assume "fst (acquire w s) = Queued"
  then have "acquire w s = (Queued, snd (acquire w s))" by (metis prod.collapse)
  from acquire_Queued [OF this] show "queue (snd (acquire w s)) = queue s @ [w]"
    by (metis pool_state.select_convs(4) pool_state.surjective pool_state.update_convs(4))
next
  assume l: "length cs \<le> length (queue s)"
  from release_all_fifo [OF l]
  show "fst (release_all cs s) = zip (queue s) cs"
    and "queue (snd (release_all cs s)) = drop (length cs) (queue s)"
    and "set cs \<subseteq> inUse (snd (release_all cs s))"
    by auto
next
  assume "run es (s, p) = Some (s', p')"
  then show "snd (history es (s, p)) @ queue s' = queue s @ fst (history es (s, p))"
    by (rule run_fifo)
qed

theorem release_hands_over_fifo_witness:
  "queue waiting_pool \<noteq> [] \<and>
   release 2 waiting_pool =
     (Some (7, 2), waiting_pool\<lparr>queue := [8, 9]\<rparr>) \<and>
   fst (acquire 10 waiting_pool) = Queued \<and>
   queue (snd (acquire 10 waiting_pool)) = [7, 8, 9, 10] \<and>
   length [2, 3 :: conn] \<le> length (queue waiting_pool) \<and>
   fst (release_all [2, 3] waiting_pool) = [(7, 2), (8, 3)] \<and>
   queue (snd (release_all [2, 3] waiting_pool)) = [9] \<and>
   run busy_hour (saturated_pool\<lparr>maxQueueSize := 5\<rparr>, {}) =
     Some (saturated_pool\<lparr>maxQueueSize := 5, queue := [6]\<rparr>, {}) \<and>
   history busy_hour (saturated_pool\<lparr>maxQueueSize := 5\<rparr>, {}) = ([4, 5, 6], [3, 4, 5])"
proof -
  have h1: "queue waiting_pool \<noteq> []"
    and h3: "length [2, 3 :: conn] \<le> length (queue waiting_pool)"
    by (simp_all add: waiting_pool_def)
  have h2: "fst (acquire 10 waiting_pool) = Queued"
    by (simp add: acquire_def waiting_pool_def)
  have e: "waiting_pool\<lparr>queue := tl (queue waiting_pool), inUse := insert 2 (inUse waiting_pool)\<rparr>
             = waiting_pool\<lparr>queue := [8, 9]\<rparr>"
    by (simp add: waiting_pool_def insert_commute)
  have q: "queue waiting_pool = [7, 8, 9]"
    by (simp add: waiting_pool_def)
  have rn: "run busy_hour (saturated_pool\<lparr>maxQueueSize := 5\<rparr>, {}) =
      Some (saturated_pool\<lparr>maxQueueSize := 5, queue := [6]\<rparr>, {})"
    by code_simp
  have hi: "history busy_hour (saturated_pool\<lparr>maxQueueSize := 5\<rparr>, {}) = ([4, 5, 6], [3, 4, 5])"
    by code_simp
  have "snd (history busy_hour (saturated_pool\<lparr>maxQueueSize := 5\<rparr>, {})) @
          queue (saturated_pool\<lparr>maxQueueSize := 5, queue := [6]\<rparr>) =
        queue (saturated_pool\<lparr>maxQueueSize := 5\<rparr>) @
          fst (history busy_hour (saturated_pool\<lparr>maxQueueSize := 5\<rparr>, {}))"
    using release_hands_over_fifo
      [where s = "saturated_pool\<lparr>maxQueueSize := 5\<rparr>" and es = busy_hour and p = "{}"
         and s' = "saturated_pool\<lparr>maxQueueSize := 5, queue := [6]\<rparr>" and p' = "{}"] rn
    by blast
  note fifo = release_hands_over_fifo [where s = waiting_pool and c = 2 and w' = 11 and w = 10
      and cs = "[2, 3]"]
  from fifo h1 have r: "release 2 waiting_pool =
      (Some (hd (queue waiting_pool), 2),
       waiting_pool\<lparr>queue := tl (queue waiting_pool), inUse := insert 2 (inUse waiting_pool)\<rparr>)"
    by blast
  from fifo h2 have a: "queue (snd (acquire 10 waiting_pool)) = queue waiting_pool @ [10]"
    by blast
  from fifo h3 have f: "fst (release_all [2, 3] waiting_pool) = zip (queue waiting_pool) [2, 3]"
    and d: "queue (snd (release_all [2, 3] waiting_pool)) = drop (length [2, 3 :: conn]) (queue waiting_pool)"
    by blast+
  have "release 2 waiting_pool = (Some (7, 2), waiting_pool\<lparr>queue := [8, 9]\<rparr>)"
    using r e q by simp
  moreover have "queue (snd (acquire 10 waiting_pool)) = [7, 8, 9, 10]"
    using a q by simp
  moreover have "fst (release_all [2, 3] waiting_pool) = [(7, 2), (8, 3)]"
    using f q by simp
  moreover have "queue (snd (release_all [2, 3] waiting_pool)) = [9]"
    using d q by simp
  ultimately show ?thesis using h1 h2 h3 rn hi by blast
qed

text \<open>What every interleaving keeps: the connections in use are connections of the pool,
  and the pool lists no connection twice, so there are never more connections in use
  than connections in the pool. And an acquisition that runs alone, its creation done
  before the next call, keeps the pool within \<^verbatim>\<open>maxConnections\<close>.\<close>

lemma acquire_pool_unchanged: "pool (snd (acquire w s)) = pool s"
  by (simp add: acquire_def split: option.splits)

lemma acquire_inUse: "inUse (snd (acquire w s)) \<subseteq> inUse s \<union> set (pool s)"
  by (auto simp: acquire_def split: option.splits dest: find_Some_holds)

lemma step_keeps_inUse_in_pool:
  assumes "step e (s, p) = Some (s', p')"
    and "inUse s \<subseteq> set (pool s)" and "distinct (pool s)"
  shows "inUse s' \<subseteq> set (pool s') \<and> distinct (pool s')"
proof (cases e)
  case (Acquire w)
  then have "s' = snd (acquire w s)"
    using assms(1) by (auto split: prod.splits acquired.splits)
  then show ?thesis
    using assms(2,3) acquire_inUse [of w s] by (auto simp: acquire_pool_unchanged)
next
  case (Created w c)
  then show ?thesis
    using assms by (auto simp: acquire_created_def split: if_splits)
next
  case (CreateFailed w err)
  then show ?thesis using assms by (auto split: if_splits)
next
  case (Release c)
  then show ?thesis
    using assms by (auto simp: release_def Let_def split: if_splits)
next
  case (Remove c)
  then show ?thesis
    using assms by (auto simp: removeConnection_def Let_def subset_iff)
qed

lemma run_keeps_inUse_in_pool:
  "run es (s, p) = Some (s', p') \<Longrightarrow> inUse s \<subseteq> set (pool s) \<Longrightarrow> distinct (pool s) \<Longrightarrow>
     inUse s' \<subseteq> set (pool s') \<and> distinct (pool s')"
proof (induction es arbitrary: s p)
  case Nil
  then show ?case by simp
next
  case (Cons e es)
  then obtain s1 p1 where st: "step e (s, p) = Some (s1, p1)" and r: "run es (s1, p1) = Some (s', p')"
    by (auto split: option.splits)
  from step_keeps_inUse_in_pool [OF st Cons.prems(2,3)]
  have "inUse s1 \<subseteq> set (pool s1)" "distinct (pool s1)" by auto
  from Cons.IH [OF r this] show ?case .
qed

lemma run_inUse_le_pool:
  assumes "run es (s, p) = Some (s', p')" "inUse s \<subseteq> set (pool s)" "distinct (pool s)"
  shows "card (inUse s') \<le> length (pool s')"
proof -
  from run_keeps_inUse_in_pool [OF assms]
  have sub: "inUse s' \<subseteq> set (pool s')" and d: "distinct (pool s')" by auto
  have "card (inUse s') \<le> card (set (pool s'))"
    using sub by (simp add: card_mono)
  then show ?thesis using d by (simp add: distinct_card)
qed

lemma lone_acquire_keeps_bound:
  assumes "length (pool s) \<le> maxConnections s"
    and "step (Acquire w) (s, {}) = Some (s1, p1)"
    and "step (Created w c) (s1, p1) = Some (s2, p2)"
  shows "length (pool s2) \<le> maxConnections s2"
  using assms
  by (auto simp: acquire_def acquire_created_def split: option.splits if_splits)

text \<open>
  Claim C1 at a concrete input. After start-up, five uploads hold the five connections
  of the pool and a sixth waits in the queue. The scan on connection 1 fails with EPIPE.
  The callback first releases connection 1, which resolves the waiting caller 6 with it,
  and only then removes it from the pool: caller 6 now scans on the connection that has
  just failed.
\<close>

theorem scan_callback_hands_failed_connection_to_waiter:
  "fst (initClamScan up_at_once connectionPool) = warm_pool \<and>
   run six_uploads (warm_pool, {}) = Some (busy_pool, {}) \<and>
   transport_error epipe \<and>
   scan_callback 1 (Some epipe) None t0 busy_pool =
     (Some (6, 1), Rejected epipe, pool_after_fault)"
  by code_simp

text \<open>
  Claim C2 at a concrete input. After start-up the pool of capacity 5 holds one idle
  connection, and six uploads arrive together. The first takes the idle connection; each
  of the other five sees \<^verbatim>\<open>pool.length = 1 < 5\<close> and starts a creation; each creation,
  once done, pushes its connection and marks it in use. The pool ends with six
  connections, all six in use.
\<close>

theorem concurrent_acquires_exceed_maxConnections:
  "fst (initClamScan up_at_once connectionPool) = warm_pool \<and>
   run six_at_once (warm_pool, {}) = Some (overfull_pool, {}) \<and>
   length (pool overfull_pool) = 6 \<and>
   card (inUse overfull_pool) = 6 \<and>
   maxConnections overfull_pool = 5"
  by code_simp

section \<open>The retry budget of scanFile\<close>

declare scanFile.simps [simp del]

lemma scanFile_attempts_from:
  "length (filter is_Scan (snd (scanFile sws fsize k))) \<le> Suc (scanFile_maxRetries - k)"
proof (induction sws fsize k rule: scanFile.induct)
  case (1 sws fsize retryCount)
  show ?case
  proof (cases "scanFile_try (sws retryCount) fsize")
    case (Resolved r)
    then show ?thesis by (simp add: scanFile.simps [of sws fsize retryCount])
  next
    case (Rejected error)
    show ?thesis
    proof (cases "transport_error error \<and> retryCount < scanFile_maxRetries")
      case True
      have "length (filter is_Scan (snd (scanFile sws fsize (retryCount + 1))))
              \<le> Suc (scanFile_maxRetries - (retryCount + 1))"
        using 1 [OF Rejected True] .
      moreover have "snd (scanFile sws fsize retryCount) =
          Scan retryCount # Sleep (1000 * (retryCount + 1)) #
            snd (scanFile sws fsize (retryCount + 1))"
        using Rejected True by (simp add: scanFile.simps [of sws fsize retryCount] split_beta)
      moreover have "Suc (scanFile_maxRetries - (retryCount + 1)) = scanFile_maxRetries - retryCount"
        using True by arith
      ultimately show ?thesis by simp
    next
      case False
      with Rejected show ?thesis
        by (auto simp add: scanFile.simps [of sws fsize retryCount])
    qed
  next
    case Unsettled
    then show ?thesis by (simp add: scanFile.simps [of sws fsize retryCount])
  qed
qed

lemma scanFile_retry_step:
  "sws k = Rejected e \<Longrightarrow> transport_error e \<Longrightarrow> k < scanFile_maxRetries \<Longrightarrow>
     scanFile sws fsize k =
       (fst (scanFile sws fsize (k + 1)),
        Scan k # Sleep (1000 * (k + 1)) # snd (scanFile sws fsize (k + 1)))"
  by (simp add: scanFile.simps [of sws fsize k] scanFile_try_def split_beta)

lemma scanFile_last_step:
  "sws k = Rejected e \<Longrightarrow> \<not> k < scanFile_maxRetries \<Longrightarrow>
     scanFile sws fsize k = (Rejected e, [Scan k])"
  by (simp add: scanFile.simps [of sws fsize k] scanFile_try_def)

text \<open>
  Claim C8, amended. scanFile never makes more than \<open>1 + maxRetries = 3\<close> attempts. When
  the three attempts all fail with EPIPE or ECONNRESET, it waits 1000 ms before the
  first retry and 2000 ms before the second, makes no fourth attempt, and rejects with
  the error of the third attempt, the very object it caught: nothing is attached to it,
  in particular no count of attempts.
\<close>

theorem scanFile_retry_budget:
  "length (filter is_Scan (snd (scanFile sws fsize 0))) \<le> 1 + scanFile_maxRetries \<and>
   ((\<forall>k \<le> scanFile_maxRetries. \<exists>e. sws k = Rejected e \<and> transport_error e) \<longrightarrow>
    (\<exists>e. sws scanFile_maxRetries = Rejected e \<and>
         scanFile sws fsize 0 =
           (Rejected e, [Scan 0, Sleep 1000, Scan 1, Sleep 2000, Scan 2])))"
proof (intro conjI impI)
  show "length (filter is_Scan (snd (scanFile sws fsize 0))) \<le> 1 + scanFile_maxRetries"
    using scanFile_attempts_from [of sws fsize 0] by simp
next
  assume a: "\<forall>k \<le> scanFile_maxRetries. \<exists>e. sws k = Rejected e \<and> transport_error e"
  obtain e0 where e0: "sws 0 = Rejected e0" "transport_error e0"
    using a [rule_format, of 0] by auto
  obtain e1 where e1: "sws 1 = Rejected e1" "transport_error e1"
    using a [rule_format, of 1] by (auto simp: scanFile_maxRetries_def)
  obtain e2 where e2: "sws 2 = Rejected e2" "transport_error e2"
    using a [rule_format, of 2] by (auto simp: scanFile_maxRetries_def)
  have s2: "scanFile sws fsize 2 = (Rejected e2, [Scan 2])"
    using e2 by (simp add: scanFile_last_step scanFile_maxRetries_def)
  have s1: "scanFile sws fsize 1 = (Rejected e2, [Scan 1, Sleep 2000, Scan 2])"
    using scanFile_retry_step [of sws 1 e1 fsize] e1 s2
    by (simp add: scanFile_maxRetries_def numeral_2_eq_2)
  have s0: "scanFile sws fsize 0 =
      (Rejected e2, [Scan 0, Sleep 1000, Scan 1, Sleep 2000, Scan 2])"
    using scanFile_retry_step [of sws 0 e0 fsize] e0 s1 by (simp add: scanFile_maxRetries_def)
  show "\<exists>e. sws scanFile_maxRetries = Rejected e \<and>
         scanFile sws fsize 0 =
           (Rejected e, [Scan 0, Sleep 1000, Scan 1, Sleep 2000, Scan 2])"
    using e2 s0 by (simp add: scanFile_maxRetries_def)
qed

theorem scanFile_retry_budget_witness:
  "always_epipe 0 = Rejected epipe \<and> always_epipe 1 = Rejected epipe \<and>
   always_epipe 2 = Rejected epipe \<and> transport_error epipe \<and>
   scanFile always_epipe 1024 0 =
     (Rejected epipe, [Scan 0, Sleep 1000, Scan 1, Sleep 2000, Scan 2])"
proof -
  have t: "transport_error epipe"
    by (simp add: transport_error_def err_code_def epipe_def)
  have h: "\<forall>k \<le> scanFile_maxRetries. \<exists>e. always_epipe k = Rejected e \<and> transport_error e"
    using t by (simp add: always_epipe_def)
  from scanFile_retry_budget [of always_epipe 1024] h t
  show ?thesis by (simp add: always_epipe_def)
qed

theorem scanFile_error_untagged_counterexample:
  "transport_error epipe \<and>
   fst (scanFile always_epipe 1024 0) = Rejected epipe \<and>
   length (filter is_Scan (snd (scanFile always_epipe 1024 0))) = 3 \<and>
   props epipe = [(''errno'', JNum (- 32)), (''code'', JStr ''EPIPE''), (''syscall'', JStr ''write'')] \<and>
   JNum 3 \<notin> set (map snd (props epipe))"
  by code_simp

section \<open>The bounded creation loop\<close>

declare createConnection_loop.simps [simp del]

lemma first_success_hit:
  "a \<le> createConnection_maxRetries \<Longrightarrow> init a = Inr c \<Longrightarrow> first_success init a = Some a"
  by (simp add: first_success_def upt_conv_Cons succeeded_def del: upt_Suc)

lemma first_success_miss:
  "a \<le> createConnection_maxRetries \<Longrightarrow> init a = Inl e \<Longrightarrow>
     first_success init a = first_success init (Suc a)"
  by (simp add: first_success_def upt_conv_Cons succeeded_def del: upt_Suc)

lemma first_success_range:
  assumes "first_success init a = Some k"
  shows "a \<le> k \<and> k \<le> createConnection_maxRetries \<and> succeeded (init k)"
proof -
  have "List.find (\<lambda>k. succeeded (init k)) [a..<Suc createConnection_maxRetries] = Some k"
    using assms by (simp only: first_success_def)
  from find_Some_holds [OF this] show ?thesis by (simp del: upt_Suc)
qed

lemma failed_tries_step:
  "a < k \<Longrightarrow> failed_tries a k =
     Connect a # Backoff (createConnection_delay * a) # failed_tries (Suc a) k"
  by (simp add: failed_tries_def upt_conv_Cons)

lemma failed_tries_empty: "failed_tries a a = []"
  by (simp add: failed_tries_def)

lemma count_failed_tries: "length (filter is_Connect (failed_tries a k)) = k - a"
  by (induction k) (simp_all add: failed_tries_def Suc_diff_le)

lemma loop_success:
  "a \<le> createConnection_maxRetries \<Longrightarrow> first_success init a = Some k \<Longrightarrow>
     \<exists>c. init k = Inr c \<and>
         createConnection_loop init a ini = (Session c, True, failed_tries a k @ [Connect k])"
proof (induction init a ini rule: createConnection_loop.induct)
  case (1 init attempt ini)
  note le = \<open>attempt \<le> createConnection_maxRetries\<close>
  note fs = \<open>first_success init attempt = Some k\<close>
  show ?case
  proof (cases "init attempt")
    case (Inr c)
    then have "k = attempt" using first_success_hit [of attempt init c] le fs by simp
    then show ?thesis
      using le Inr
      by (simp add: createConnection_loop.simps [of init attempt ini] failed_tries_empty)
  next
    case (Inl e)
    have fs': "first_success init (Suc attempt) = Some k"
      using first_success_miss [of attempt init e] le Inl fs by simp
    then have rng: "Suc attempt \<le> k" "k \<le> createConnection_maxRetries"
      using first_success_range [of init "Suc attempt" k] by auto
    then have lt: "attempt < createConnection_maxRetries" by simp
    have "\<exists>c. init k = Inr c \<and>
            createConnection_loop init (attempt + 1) ini =
              (Session c, True, failed_tries (attempt + 1) k @ [Connect k])"
      using 1(1) [OF le Inl lt] lt fs' by simp
    then obtain c where c: "init k = Inr c"
      "createConnection_loop init (Suc attempt) ini =
         (Session c, True, failed_tries (Suc attempt) k @ [Connect k])"
      by auto
    have "attempt < k" using rng by simp
    then show ?thesis
      using le Inl lt c
      by (simp add: createConnection_loop.simps [of init attempt ini] failed_tries_step)
  qed
qed

lemma loop_failure:
  "a \<le> createConnection_maxRetries \<Longrightarrow> first_success init a = None \<Longrightarrow>
     \<exists>e. init createConnection_maxRetries = Inl e \<and>
         createConnection_loop init a ini =
           (CreateThrew e, ini,
            failed_tries a createConnection_maxRetries @ [Connect createConnection_maxRetries])"
proof (induction init a ini rule: createConnection_loop.induct)
  case (1 init attempt ini)
  note le = \<open>attempt \<le> createConnection_maxRetries\<close>
  note fs = \<open>first_success init attempt = None\<close>
  show ?case
  proof (cases "init attempt")
    case (Inr c)
    then show ?thesis using first_success_hit [of attempt init c] le fs by simp
  next
    case (Inl e)
    show ?thesis
    proof (cases "attempt < createConnection_maxRetries")
      case True
      have fs': "first_success init (Suc attempt) = None"
        using first_success_miss [of attempt init e] le Inl fs by simp
      have "\<exists>e. init createConnection_maxRetries = Inl e \<and>
            createConnection_loop init (attempt + 1) ini =
              (CreateThrew e, ini,
               failed_tries (attempt + 1) createConnection_maxRetries @
                 [Connect createConnection_maxRetries])"
        using 1(1) [OF le Inl True] True fs' by simp
      then obtain e' where e': "init createConnection_maxRetries = Inl e'"
        "createConnection_loop init (Suc attempt) ini =
           (CreateThrew e', ini,
            failed_tries (Suc attempt) createConnection_maxRetries @
              [Connect createConnection_maxRetries])"
        by auto
      show ?thesis
        using le Inl True e'
        by (simp add: createConnection_loop.simps [of init attempt ini] failed_tries_step)
    next
      case False
      then have eq: "attempt = createConnection_maxRetries" using le by simp
      have "createConnection_loop init attempt ini = (CreateThrew e, ini, [Connect attempt])"
        using Inl False le by (subst createConnection_loop.simps) simp
      then show ?thesis
        using Inl eq by (simp add: failed_tries_empty)
    qed
  qed
qed

text \<open>
  Claim C9. \<^verbatim>\<open>_createConnection\<close> makes at most 10 tries. If some try among the ten
  succeeds, it returns the session of the first one that does, having waited 3000 ms
  times the try number after each failed try before it. If all ten fail, it throws the
  error of the tenth try, having waited after each of the first nine. It never falls
  out of the loop, and it is total: it ends after a bounded number of tries.
\<close>

theorem createConnection_bounded:
  "(case first_success init 1 of
      Some k \<Rightarrow>
        k \<le> createConnection_maxRetries \<and>
        (\<exists>c. init k = Inr c \<and>
             createConnection_loop init 1 ini =
               (Session c, True, failed_tries 1 k @ [Connect k]))
    | None \<Rightarrow>
        (\<exists>e. init createConnection_maxRetries = Inl e \<and>
             createConnection_loop init 1 ini =
               (CreateThrew e, ini,
                failed_tries 1 createConnection_maxRetries @
                  [Connect createConnection_maxRetries]))) \<and>
   length (filter is_Connect (snd (snd (createConnection_loop init 1 ini))))
     \<le> createConnection_maxRetries \<and>
   createConnection_maxRetries = 10 \<and> createConnection_delay = 3000"
proof -
  have le: "1 \<le> createConnection_maxRetries" by (simp add: createConnection_maxRetries_def)
  have vals: "createConnection_maxRetries = 10 \<and> createConnection_delay = 3000"
    by (simp add: createConnection_maxRetries_def createConnection_delay_def)
  show ?thesis
  proof (cases "first_success init 1")
    case None
    from loop_failure [OF le None, of ini] show ?thesis
      using None le vals by (auto simp: count_failed_tries)
  next
    case (Some k)
    from loop_success [OF le Some, of ini] first_success_range [OF Some] show ?thesis
      using Some le vals by (auto simp: count_failed_tries)
  qed
qed

theorem createConnection_bounded_witness:
  "first_success down_twice 1 = Some 3 \<and>
   createConnection_loop down_twice 1 False =
     (Session 7, True, [Connect 1, Backoff 3000, Connect 2, Backoff 6000, Connect 3]) \<and>
   first_success always_down 1 = None \<and>
   fst (createConnection_loop always_down 1 False) = CreateThrew refused \<and>
   length (filter is_Connect (snd (snd (createConnection_loop always_down 1 False)))) = 10"
proof -
  have f1: "first_success down_twice 1 = Some 3" by code_simp
  have f2: "first_success always_down 1 = None" by code_simp
  have t1: "failed_tries 1 3 @ [Connect 3] =
      [Connect 1, Backoff 3000, Connect 2, Backoff 6000, Connect 3]" by code_simp
  have i3: "down_twice 3 = Inr 7" by (simp add: down_twice_def)
  have i10: "always_down createConnection_maxRetries = Inl refused" by (simp add: always_down_def)
  from createConnection_bounded [of down_twice False] f1 i3 t1
  have a: "createConnection_loop down_twice 1 False =
      (Session 7, True, [Connect 1, Backoff 3000, Connect 2, Backoff 6000, Connect 3])"
    by auto
  from createConnection_bounded [of always_down False] f2 i10
  have b: "createConnection_loop always_down 1 False =
      (CreateThrew refused, False,
       failed_tries 1 createConnection_maxRetries @ [Connect createConnection_maxRetries])"
    by auto
  have c: "length (filter is_Connect
      (failed_tries 1 createConnection_maxRetries @ [Connect createConnection_maxRetries])) = 10"
    by (simp add: count_failed_tries createConnection_maxRetries_def)
  from a b c f1 f2 show ?thesis by simp
qed

end
